theory Spec2Isabelle
  imports Main
begin

section \<open>Byte strings and the functions of Go's \<open>strings\<close> package used by the unwrapper\<close>

text \<open>
  A Go string is a sequence of bytes; \<^typ>\<open>string\<close> is a list of 8-bit characters.
  The cutsets used by the source are ASCII, so Go trims byte by byte.
\<close>

text \<open>The newline byte, and the constant \<^verbatim>\<open>wrap\<close>: one backslash.\<close>

definition newline :: char where
  "newline = CHR 0x0A"

definition wrap :: string where
  "wrap = [CHR 0x5C]"

text \<open>The cutset \<^verbatim>\<open>" \r\n\t"\<close> of the two \<^verbatim>\<open>TrimRight\<close> calls.\<close>

definition whitespace :: string where
  "whitespace = [CHR 0x20, CHR 0x0D, CHR 0x0A, CHR 0x09]"

text \<open>The cutset \<^verbatim>\<open>" \t"\<close> of the \<^verbatim>\<open>TrimLeft\<close> call.\<close>

definition blanks :: string where
  "blanks = [CHR 0x20, CHR 0x09]"

text \<open>
  \<^verbatim>\<open>strings.TrimRight\<close> and \<^verbatim>\<open>strings.TrimLeft\<close> drop the trailing, respectively
  leading, bytes that are in the cutset; \<^verbatim>\<open>strings.HasSuffix\<close> compares the last
  bytes of the string with the suffix; \<^verbatim>\<open>strings.TrimSuffix\<close> cuts the suffix off when
  it is there, once.
\<close>

definition TrimRight :: "string \<Rightarrow> string \<Rightarrow> string" where
  "TrimRight s cutset = rev (dropWhile (\<lambda>b. b \<in> set cutset) (rev s))"

definition TrimLeft :: "string \<Rightarrow> string \<Rightarrow> string" where
  "TrimLeft s cutset = dropWhile (\<lambda>b. b \<in> set cutset) s"

definition HasSuffix :: "string \<Rightarrow> string \<Rightarrow> bool" where
  "HasSuffix s suffix \<longleftrightarrow>
     length suffix \<le> length s \<and> drop (length s - length suffix) s = suffix"

definition TrimSuffix :: "string \<Rightarrow> string \<Rightarrow> string" where
  "TrimSuffix s suffix =
     (if HasSuffix s suffix then take (length s - length suffix) s else s)"

text \<open>
  \<^verbatim>\<open>strings.Split(text, "\n")\<close>: the separator is one byte; the pieces between its
  occurrences, so a text with k separators gives k + 1 pieces and the empty text gives
  one empty piece. The result is never empty (lemma \<open>Split_not_Nil\<close> below), so the
  head and the tail taken of the recursive result are those of a list with a first piece.
\<close>

fun Split :: "string \<Rightarrow> char \<Rightarrow> string list" where
  "Split [] sep = [[]]"
| "Split (b # bs) sep =
     (if b = sep then [] # Split bs sep
      else (b # hd (Split bs sep)) # tl (Split bs sep))"

text \<open>\<^verbatim>\<open>strings.Join(lines, "\n")\<close>.\<close>

fun Join :: "string list \<Rightarrow> char \<Rightarrow> string" where
  "Join [] sep = []"
| "Join [x] sep = x"
| "Join (x # y # ys) sep = x @ sep # Join (y # ys) sep"

section \<open>The unwrapper\<close>

text \<open>Reading or writing a slice at an index that is not below its length panics.\<close>

datatype panic = IndexOutOfRange

text \<open>
  The forward scan of a continuation run (the inner \<^verbatim>\<open>for current := first; ...\<close>):
  while the line at \<open>current\<close> ends in the connector, the line at \<open>next\<close> is trimmed and
  the three indices advance (\<open>lastIdx\<close> is the source's \<^verbatim>\<open>last\<close>).
\<close>

function scanRun ::
  "string list \<Rightarrow> string \<Rightarrow> nat \<Rightarrow> nat \<Rightarrow> nat \<Rightarrow> panic + (string list \<times> nat)" where
  "scanRun lines connector current next lastIdx =
     (if length lines \<le> current then Inl IndexOutOfRange
      else if HasSuffix (lines ! current) connector then
        (if length lines \<le> next then Inl IndexOutOfRange
         else scanRun (lines[next := TrimRight (lines ! next) whitespace]) connector
                (current + 1) (next + 1) (lastIdx + 1))
      else Inr (lines, lastIdx))"
  by pat_completeness auto
termination
  by (relation "measure (\<lambda>(lines, connector, current, next, lastIdx). length lines - next)") auto

text \<open>
  The loop \<^verbatim>\<open>for i := first + 1; i <= last; i++\<close>: the line at \<open>i\<close>, without its
  connector and its leading blanks, is appended to the builder and then cleared.
\<close>

function buildLine ::
  "string list \<Rightarrow> string \<Rightarrow> nat \<Rightarrow> nat \<Rightarrow> string \<Rightarrow> panic + (string list \<times> string)" where
  "buildLine lines connector i lastIdx lineBuilder =
     (if i \<le> lastIdx then
        (if length lines \<le> i then Inl IndexOutOfRange
         else buildLine (lines[i := []]) connector (i + 1) lastIdx
                (lineBuilder @ TrimLeft (TrimSuffix (lines ! i) connector) blanks))
      else Inr (lines, lineBuilder))"
  by pat_completeness auto
termination
  by (relation "measure (\<lambda>(lines, connector, i, lastIdx, lineBuilder). lastIdx + 1 - i)") auto

declare scanRun.simps [simp del] buildLine.simps [simp del]

lemma scanRun_length:
  "scanRun lines connector current next lastIdx = Inr (lines', lastIdx') \<Longrightarrow>
   length lines' = length lines"
proof (induction lines connector current "next" lastIdx rule: scanRun.induct)
  case (1 lines connector current nxt lastIdx)
  show ?case
  proof (cases "\<not> length lines \<le> current \<and> HasSuffix (lines ! current) connector
                \<and> \<not> length lines \<le> nxt")
    case True
    with "1.prems" have
      "scanRun (lines[nxt := TrimRight (lines ! nxt) whitespace]) connector
         (current + 1) (nxt + 1) (lastIdx + 1) = Inr (lines', lastIdx')"
      by (subst (asm) scanRun.simps) simp
    with True "1.IH" show ?thesis by simp
  next
    case False
    with "1.prems" show ?thesis
      by (subst (asm) scanRun.simps) (auto split: if_splits)
  qed
qed

lemma buildLine_length:
  "buildLine lines connector i lastIdx lineBuilder = Inr (lines', built) \<Longrightarrow>
   length lines' = length lines"
proof (induction lines connector i lastIdx lineBuilder rule: buildLine.induct)
  case (1 lines connector i lastIdx lineBuilder)
  show ?case
  proof (cases "i \<le> lastIdx \<and> \<not> length lines \<le> i")
    case True
    with "1.prems" have
      "buildLine (lines[i := []]) connector (i + 1) lastIdx
         (lineBuilder @ TrimLeft (TrimSuffix (lines ! i) connector) blanks) = Inr (lines', built)"
      by (subst (asm) buildLine.simps) simp
    with True "1.IH" show ?thesis by simp
  next
    case False
    with "1.prems" show ?thesis
      by (subst (asm) buildLine.simps) (auto split: if_splits)
  qed
qed

text \<open>
  The outer loop \<^verbatim>\<open>for n := range lines\<close>, from index \<open>n\<close> on. The slice keeps its
  length, so the bound of the range is the length of the current list.
\<close>

function unwrapLoop :: "string list \<Rightarrow> string \<Rightarrow> nat \<Rightarrow> panic + string list" where
  "unwrapLoop lines connector n =
     (if n < length lines then
        (let lines1 = lines[n := TrimRight (lines ! n) whitespace] in
         if HasSuffix (lines1 ! n) connector then
           (if length lines1 - 1 \<le> n then
              Inr (lines1[n := TrimSuffix (lines1 ! n) connector])
            else
              (case scanRun lines1 connector n (n + 1) n of
                 Inl e \<Rightarrow> Inl e
               | Inr (lines2, lastIdx) \<Rightarrow>
                   (case buildLine lines2 connector (n + 1) lastIdx
                           (TrimSuffix (lines2 ! n) connector) of
                      Inl e \<Rightarrow> Inl e
                    | Inr (lines3, built) \<Rightarrow>
                        unwrapLoop (lines3[n := built]) connector (n + 1))))
         else unwrapLoop lines1 connector (n + 1))
      else Inr lines)"
  by pat_completeness auto
termination
proof (relation "measure (\<lambda>(lines, connector, n). length lines - n)", goal_cases)
  case 1
  show ?case by simp
next
  case 2
  then show ?case
    by (auto dest!: scanRun_length buildLine_length)
next
  case 3
  then show ?case by auto
qed

declare unwrapLoop.simps [simp del]

definition unwrapLinesInString :: "string \<Rightarrow> string \<Rightarrow> panic + string" where
  "unwrapLinesInString text connector =
     (case unwrapLoop (Split text newline) connector 0 of
        Inl e \<Rightarrow> Inl e
      | Inr lines \<Rightarrow> Inr (Join lines newline))"

section \<open>The file operation \<^verbatim>\<open>Unwrap\<close>\<close>

text \<open>
  What the operating system and Go's library answer is a parameter of the model: whether
  a path opens, what reading it gives, what \<^verbatim>\<open>filepath.Ext\<close> and \<^verbatim>\<open>filepath.Base\<close>
  return, the name of the temporary file \<^verbatim>\<open>ioutil.TempFile\<close> creates for a pattern
  (or its failure), and whether writing a text to a file succeeds.
\<close>

record world =
  os_Open :: "string \<Rightarrow> bool"
  ioutil_ReadAll :: "string \<Rightarrow> string option"
  filepath_Ext :: "string \<Rightarrow> string"
  filepath_Base :: "string \<Rightarrow> string"
  ioutil_TempFile :: "string \<Rightarrow> string option"
  WriteString :: "string \<Rightarrow> string \<Rightarrow> bool"

text \<open>
  A value of type \<^verbatim>\<open>func()\<close> as \<^verbatim>\<open>Unwrap\<close> can hold it: the nil function (the zero
  value of the named result), \<^verbatim>\<open>func() {}\<close>, and the closure that removes the
  temporary file of the given name.
\<close>

datatype cleanup = NilFunc | NoOp | RemoveFile string

text \<open>
  Calling a cleanup on a file system, given as the set of the paths that exist. Calling
  the nil function panics; \<^verbatim>\<open>os.Remove\<close> deletes the path and its error is dropped.
\<close>

datatype call_panic = NilFuncCall

fun invoke :: "cleanup \<Rightarrow> string set \<Rightarrow> call_panic + string set" where
  "invoke NilFunc files = Inl NilFuncCall"
| "invoke NoOp files = Inr files"
| "invoke (RemoveFile name) files = Inr (files - {name})"

text \<open>
  \<^verbatim>\<open>readFile\<close> and \<^verbatim>\<open>tempFile\<close> return a value or an error made of a message
  (\<open>Inl\<close> the message). A temporary file is known by its name.
\<close>

definition readFile :: "world \<Rightarrow> string \<Rightarrow> string + string" where
  "readFile w filePath =
     (if \<not> os_Open w filePath then Inl (''Failed to open file: '' @ filePath)
      else
        (case ioutil_ReadAll w filePath of
           None \<Rightarrow> Inl (''Failed to read from file: '' @ filePath)
         | Some b \<Rightarrow> Inr b))"

definition tmpFilePattern :: "world \<Rightarrow> string \<Rightarrow> string" where
  "tmpFilePattern w filePath =
     (let ext = filepath_Ext w filePath
      in TrimSuffix (filepath_Base w filePath) ext @ ''*'' @ ext)"

definition tempFile :: "world \<Rightarrow> string \<Rightarrow> string + string" where
  "tempFile w filePath =
     (case ioutil_TempFile w (tmpFilePattern w filePath) of
        None \<Rightarrow> Inl (''Failed to created a temp file: '' @ tmpFilePattern w filePath)
      | Some name \<Rightarrow> Inr name)"

text \<open>
  \<^verbatim>\<open>Unwrap\<close> returns the new path, the cleanup and the error (\<open>None\<close> is nil), or
  panics where the unwrapper does. Logging and the deferred \<^verbatim>\<open>Close\<close> change none of
  the three results.
\<close>

definition Unwrap :: "world \<Rightarrow> string \<Rightarrow> panic + (string \<times> cleanup \<times> string option)" where
  "Unwrap w filePath =
     (let cleanUp = NoOp in
      case readFile w filePath of
        Inl err \<Rightarrow> Inr ([], cleanUp, Some err)
      | Inr text \<Rightarrow>
          (case tempFile w filePath of
             Inl err \<Rightarrow> Inr ([], cleanUp, Some err)
           | Inr tmpFile \<Rightarrow>
               (let cleanUp = RemoveFile tmpFile in
                case unwrapLinesInString text wrap of
                  Inl p \<Rightarrow> Inl p
                | Inr text' \<Rightarrow>
                    if \<not> WriteString w tmpFile text'
                    then Inr (tmpFile, cleanUp,
                              Some (''Failed to write unwrapped text to: '' @ tmpFile))
                    else Inr (tmpFile, cleanUp, None))))"

text \<open>
  \<^verbatim>\<open>filepath.Ext\<close> and \<^verbatim>\<open>filepath.Base\<close> as Go documents them for slash-separated
  paths, and a world built from them in which opening and writing succeed or fail as
  told, reading gives the told content and the temporary file gets the told name (or
  none is created). They serve as concrete instances.
\<close>

definition slash_Ext :: "string \<Rightarrow> string" where
  "slash_Ext path =
     (let elem = rev (takeWhile (\<lambda>b. b \<noteq> CHR ''/'') (rev path))
      in if CHR ''.'' \<in> set elem
         then CHR ''.'' # rev (takeWhile (\<lambda>b. b \<noteq> CHR ''.'') (rev elem))
         else [])"

definition slash_Base :: "string \<Rightarrow> string" where
  "slash_Base path =
     (if path = [] then ''.''
      else
        (let stripped = rev (dropWhile (\<lambda>b. b = CHR ''/'') (rev path));
             elem = rev (takeWhile (\<lambda>b. b \<noteq> CHR ''/'') (rev stripped))
         in if elem = [] then ''/'' else elem))"

definition sample_world :: "bool \<Rightarrow> string option \<Rightarrow> string option \<Rightarrow> bool \<Rightarrow> world" where
  "sample_world opens content created writes =
     \<lparr> os_Open = (\<lambda>path. opens),
       ioutil_ReadAll = (\<lambda>path. content),
       filepath_Ext = slash_Ext,
       filepath_Base = slash_Base,
       ioutil_TempFile = (\<lambda>pattern. created),
       WriteString = (\<lambda>name text. writes) \<rparr>"

section \<open>Lines, continuation runs and the collapsed document\<close>

text \<open>
  Vocabulary for stating what the loops compute: a line after the trim at the head of the
  outer loop, a line that ends in the connector after that trim, and the fragment a later
  line of a run contributes to the joined line.
\<close>

definition trimmed :: "string \<Rightarrow> string" where
  "trimmed l = TrimRight l whitespace"

definition continues :: "string \<Rightarrow> string \<Rightarrow> bool" where
  "continues c l \<longleftrightarrow> HasSuffix (TrimRight l whitespace) c"

definition piece :: "string \<Rightarrow> string \<Rightarrow> string" where
  "piece c l = TrimLeft (TrimSuffix (TrimRight l whitespace) c) blanks"

text \<open>
  The document after the pass, described run by run: a line that does not continue is
  trimmed; a continuing last line loses its connector; a continuing line followed by
  its run and the run's terminator becomes the joined line followed by one empty line
  for every absorbed line; a run that reaches the end of the document without a terminator
  makes the scan read past the slice.
\<close>

function collapse :: "string \<Rightarrow> string list \<Rightarrow> panic + string list" where
  "collapse c [] = Inr []"
| "collapse c (l # rest) =
     (if continues c l then
        (if rest = [] then Inr [TrimSuffix (trimmed l) c]
         else
           (case dropWhile (continues c) rest of
              [] \<Rightarrow> Inl IndexOutOfRange
            | t # rem \<Rightarrow>
                (case collapse c rem of
                   Inl e \<Rightarrow> Inl e
                 | Inr r \<Rightarrow>
                     Inr ((TrimSuffix (trimmed l) c
                            @ concat (map (piece c) (takeWhile (continues c) rest @ [t])))
                          # replicate (Suc (length (takeWhile (continues c) rest))) [] @ r))))
      else (case collapse c rest of Inl e \<Rightarrow> Inl e | Inr r \<Rightarrow> Inr (trimmed l # r)))"
  by pat_completeness auto
termination
proof (relation "measure (\<lambda>(c, ls). length ls)", goal_cases)
  case 1
  show ?case by simp
next
  case (2 c l rest t rem)
  have "length (dropWhile (continues c) rest) \<le> length rest"
    by (rule length_dropWhile_le)
  with 2 show ?case by simp
next
  case 3
  then show ?case by simp
qed

text \<open>
  A document whose last two lines both continue: the run that holds them has no
  terminator.
\<close>

definition dangling :: "string \<Rightarrow> string list \<Rightarrow> bool" where
  "dangling c ls \<longleftrightarrow>
     ls \<noteq> [] \<and> butlast ls \<noteq> [] \<and> continues c (last ls) \<and> continues c (last (butlast ls))"

section \<open>Facts about the string functions\<close>

lemma Split_not_Nil: "Split s sep \<noteq> []"
  by (induction s) auto

lemma Split_no_sep: "l \<in> set (Split s sep) \<Longrightarrow> sep \<notin> set l"
proof (induction s arbitrary: l)
  case Nil
  then show ?case by simp
next
  case (Cons b bs)
  show ?case
  proof (cases "b = sep")
    case True
    with Cons show ?thesis by auto
  next
    case False
    obtain x xs where sp: "Split bs sep = x # xs"
      using Split_not_Nil [of bs sep] by (cases "Split bs sep") auto
    with Cons False show ?thesis by auto
  qed
qed

lemma Join_Split: "Join (Split s sep) sep = s"
proof (induction s)
  case Nil
  then show ?case by simp
next
  case (Cons b bs)
  obtain x xs where sp: "Split bs sep = x # xs"
    using Split_not_Nil [of bs sep] by (cases "Split bs sep") auto
  show ?case
  proof (cases "b = sep")
    case True
    with Cons sp show ?thesis by simp
  next
    case False
    with Cons sp show ?thesis by (cases xs) auto
  qed
qed

lemma Split_append_sep:
  "sep \<notin> set x \<Longrightarrow> Split (x @ sep # r) sep = x # Split r sep"
  by (induction x) auto

lemma Split_no_sep_id: "sep \<notin> set x \<Longrightarrow> Split x sep = [x]"
  by (induction x) auto

lemma Split_Join:
  "ls \<noteq> [] \<Longrightarrow> \<forall>l \<in> set ls. sep \<notin> set l \<Longrightarrow> Split (Join ls sep) sep = ls"
proof (induction ls)
  case Nil
  then show ?case by simp
next
  case (Cons x ys)
  show ?case
  proof (cases ys)
    case Nil
    with Cons.prems show ?thesis by (simp add: Split_no_sep_id)
  next
    case (Cons y zs)
    with Cons.IH Cons.prems show ?thesis
      by (simp add: Split_append_sep)
  qed
qed

lemma TrimRight_Nil: "TrimRight [] cs = []"
  by (simp add: TrimRight_def)

lemma length_TrimRight: "length (TrimRight s cs) \<le> length s"
  unfolding TrimRight_def using length_dropWhile_le [of _ "rev s"] by simp

lemma set_TrimRight: "set (TrimRight s cs) \<subseteq> set s"
  unfolding TrimRight_def using set_dropWhileD [of _ _ "rev s"] by auto

lemma set_TrimLeft: "set (TrimLeft s cs) \<subseteq> set s"
  unfolding TrimLeft_def using set_dropWhileD by fastforce

lemma set_TrimSuffix: "set (TrimSuffix s suf) \<subseteq> set s"
  by (auto simp: TrimSuffix_def dest: in_set_takeD)

lemma HasSuffix_Nil_left: "HasSuffix [] c \<longleftrightarrow> c = []"
  by (auto simp: HasSuffix_def)

lemma HasSuffix_Nil_right: "HasSuffix s []"
  by (simp add: HasSuffix_def)

lemma continues_Nil: "continues c [] \<longleftrightarrow> c = []"
  by (simp add: continues_def TrimRight_Nil HasSuffix_Nil_left)

lemma piece_Nil: "piece c [] = []"
  by (simp add: piece_def TrimRight_Nil TrimSuffix_def TrimLeft_def)

lemma strip_shorter:
  assumes "continues c l" "c \<noteq> []"
  shows "length (TrimSuffix (trimmed l) c) < length l"
proof -
  have hs: "HasSuffix (trimmed l) c"
    using assms(1) by (simp add: continues_def trimmed_def)
  then have "length c \<le> length (trimmed l)" by (simp add: HasSuffix_def)
  moreover have "0 < length c" using assms(2) by simp
  moreover have "length (TrimSuffix (trimmed l) c) = length (trimmed l) - length c"
    using hs by (simp add: TrimSuffix_def)
  moreover have "length (trimmed l) \<le> length l"
    by (simp add: trimmed_def length_TrimRight)
  ultimately show ?thesis by linarith
qed

section \<open>The loops compute the collapsed document\<close>

lemma scanRun_step:
  "scanRun (pre @ x # rest) c (length pre) (Suc (length pre)) la =
     (if HasSuffix x c then
        (case rest of
           [] \<Rightarrow> Inl IndexOutOfRange
         | y # ys \<Rightarrow> scanRun ((pre @ [x]) @ trimmed y # ys) c
                       (Suc (length pre)) (Suc (Suc (length pre))) (Suc la))
      else Inr (pre @ x # rest, la))"
  by (subst scanRun.simps)
     (auto simp: nth_append trimmed_def list_update_append split: list.splits)

lemma scanRun_run:
  "HasSuffix x c \<Longrightarrow>
   scanRun (pre @ x # rest) c (length pre) (Suc (length pre)) la =
     (case dropWhile (continues c) rest of
        [] \<Rightarrow> Inl IndexOutOfRange
      | t # rem \<Rightarrow>
          Inr (pre @ x # map trimmed (takeWhile (continues c) rest) @ trimmed t # rem,
               la + length (takeWhile (continues c) rest) + 1))"
proof (induction rest arbitrary: pre x la)
  case Nil
  then show ?case by (simp add: scanRun_step)
next
  case (Cons y ys)
  show ?case
  proof (cases "continues c y")
    case True
    then have hs: "HasSuffix (trimmed y) c" by (simp add: continues_def trimmed_def)
    have "scanRun (pre @ x # y # ys) c (length pre) (Suc (length pre)) la =
          scanRun ((pre @ [x]) @ trimmed y # ys) c (length (pre @ [x])) (Suc (length (pre @ [x]))) (Suc la)"
      using Cons.prems by (simp add: scanRun_step)
    also have "\<dots> = (case dropWhile (continues c) ys of
        [] \<Rightarrow> Inl IndexOutOfRange
      | t # rem \<Rightarrow>
          Inr ((pre @ [x]) @ trimmed y # map trimmed (takeWhile (continues c) ys) @ trimmed t # rem,
               Suc la + length (takeWhile (continues c) ys) + 1))"
      by (rule Cons.IH [OF hs])
    finally have eq: "scanRun (pre @ x # y # ys) c (length pre) (Suc (length pre)) la =
      (case dropWhile (continues c) ys of
        [] \<Rightarrow> Inl IndexOutOfRange
      | t # rem \<Rightarrow>
          Inr ((pre @ [x]) @ trimmed y # map trimmed (takeWhile (continues c) ys) @ trimmed t # rem,
               Suc la + length (takeWhile (continues c) ys) + 1))" .
    show ?thesis unfolding eq using True
      by (cases "dropWhile (continues c) ys") (simp_all del: dropWhile_eq_Nil_conv)
  next
    case False
    then have hs: "\<not> HasSuffix (trimmed y) c" by (simp add: continues_def trimmed_def)
    have "scanRun (pre @ x # y # ys) c (length pre) (Suc (length pre)) la =
          scanRun ((pre @ [x]) @ trimmed y # ys) c (length (pre @ [x])) (Suc (length (pre @ [x]))) (Suc la)"
      using Cons.prems by (simp add: scanRun_step)
    also have "\<dots> = Inr ((pre @ [x]) @ trimmed y # ys, Suc la)"
      using hs by (subst scanRun_step) simp
    finally show ?thesis using False by simp
  qed
qed

lemma buildLine_run:
  "Suc la = length pre + length mid \<Longrightarrow>
   buildLine (pre @ mid @ rem) c (length pre) la acc =
     Inr (pre @ replicate (length mid) [] @ rem,
          acc @ concat (map (\<lambda>l. TrimLeft (TrimSuffix l c) blanks) mid))"
proof (induction mid arbitrary: pre acc)
  case Nil
  then show ?case by (subst buildLine.simps) simp
next
  case (Cons m ms)
  have "buildLine (pre @ (m # ms) @ rem) c (length pre) la acc =
        buildLine ((pre @ [[]]) @ ms @ rem) c (length (pre @ [[]])) la
          (acc @ TrimLeft (TrimSuffix m c) blanks)"
    using Cons.prems by (subst buildLine.simps) (simp add: nth_append list_update_append)
  also have "\<dots> = Inr ((pre @ [[]]) @ replicate (length ms) [] @ rem,
          (acc @ TrimLeft (TrimSuffix m c) blanks)
            @ concat (map (\<lambda>l. TrimLeft (TrimSuffix l c) blanks) ms))"
    using Cons.prems by (intro Cons.IH) simp
  finally show ?case by simp
qed

lemma unwrapLoop_done: "unwrapLoop pre c (length pre) = Inr pre"
  by (subst unwrapLoop.simps) simp

lemma unwrapLoop_plain:
  "\<not> continues c l \<Longrightarrow>
   unwrapLoop (pre @ l # rest) c (length pre) =
   unwrapLoop ((pre @ [trimmed l]) @ rest) c (length (pre @ [trimmed l]))"
  by (subst unwrapLoop.simps)
     (simp add: Let_def nth_append list_update_append continues_def trimmed_def)

lemma unwrapLoop_final:
  "continues c l \<Longrightarrow>
   unwrapLoop (pre @ [l]) c (length pre) = Inr (pre @ [TrimSuffix (trimmed l) c])"
  by (subst unwrapLoop.simps)
     (simp add: Let_def nth_append list_update_append continues_def trimmed_def)

lemma unwrapLoop_dangling:
  assumes "continues c l" "rest \<noteq> []" "dropWhile (continues c) rest = []"
  shows "unwrapLoop (pre @ l # rest) c (length pre) = Inl IndexOutOfRange"
proof -
  have hs: "HasSuffix (trimmed l) c"
    using assms(1) by (simp add: continues_def trimmed_def)
  have sc: "scanRun (pre @ trimmed l # rest) c (length pre) (Suc (length pre)) (length pre)
             = Inl IndexOutOfRange"
    using scanRun_run [OF hs, of pre rest "length pre"] assms(3)
    by (simp del: dropWhile_eq_Nil_conv)
  show ?thesis
    using hs assms(2) sc
    by (subst unwrapLoop.simps)
       (simp add: Let_def nth_append list_update_append trimmed_def)
qed

lemma unwrapLoop_run:
  assumes "continues c l" "dropWhile (continues c) rest = t # rem"
  shows "unwrapLoop (pre @ l # rest) c (length pre) =
         unwrapLoop
           (pre @ (TrimSuffix (trimmed l) c
                    @ concat (map (piece c) (takeWhile (continues c) rest @ [t])))
                # replicate (Suc (length (takeWhile (continues c) rest))) [] @ rem)
           c (Suc (length pre))"
proof -
  let ?run = "takeWhile (continues c) rest"
  let ?mid = "map trimmed ?run @ [trimmed t]"
  have hs: "HasSuffix (trimmed l) c"
    using assms(1) by (simp add: continues_def trimmed_def)
  have ne: "rest \<noteq> []" using assms(2) by auto
  have sc: "scanRun (pre @ trimmed l # rest) c (length pre) (Suc (length pre)) (length pre)
             = Inr (pre @ trimmed l # ?mid @ rem, length pre + length ?run + 1)"
    using scanRun_run [OF hs, of pre rest "length pre"] assms(2) by simp
  have bl: "buildLine ((pre @ [trimmed l]) @ ?mid @ rem) c (length (pre @ [trimmed l]))
              (length pre + length ?run + 1) (TrimSuffix (trimmed l) c)
            = Inr ((pre @ [trimmed l]) @ replicate (length ?mid) [] @ rem,
                   TrimSuffix (trimmed l) c
                     @ concat (map (\<lambda>l. TrimLeft (TrimSuffix l c) blanks) ?mid))"
    by (rule buildLine_run) simp
  have pc: "map (\<lambda>l. TrimLeft (TrimSuffix l c) blanks) ?mid = map (piece c) (?run @ [t])"
    by (simp add: piece_def trimmed_def)
  show ?thesis
    using hs ne sc bl
    by (subst unwrapLoop.simps)
       (simp add: Let_def nth_append list_update_append trimmed_def [symmetric] pc
             del: map_append)
qed

lemma unwrapLoop_skip:
  "c \<noteq> [] \<Longrightarrow>
   unwrapLoop (pre @ replicate k [] @ rem) c (length pre) =
   unwrapLoop (pre @ replicate k [] @ rem) c (length pre + k)"
proof (induction k arbitrary: pre)
  case 0
  then show ?case by simp
next
  case (Suc k)
  have nc: "\<not> continues c []"
    using Suc.prems by (simp add: continues_def TrimRight_Nil HasSuffix_Nil_left)
  have "unwrapLoop (pre @ replicate (Suc k) [] @ rem) c (length pre) =
        unwrapLoop ((pre @ [[]]) @ replicate k [] @ rem) c (length (pre @ [[]]))"
    using unwrapLoop_plain [OF nc, of pre "replicate k [] @ rem"]
    by (simp add: trimmed_def TrimRight_Nil)
  also have "\<dots> = unwrapLoop ((pre @ [[]]) @ replicate k [] @ rem) c (length (pre @ [[]]) + k)"
    by (rule Suc.IH [OF Suc.prems])
  finally show ?case by simp
qed

lemma unwrapLoop_collapse:
  "unwrapLoop (pre @ suf) c (length pre) =
     (case collapse c suf of Inl e \<Rightarrow> Inl e | Inr r \<Rightarrow> Inr (pre @ r))"
proof (induction c suf arbitrary: pre rule: collapse.induct)
  case (1 c)
  show ?case by (simp add: unwrapLoop_done)
next
  case (2 c l rest)
  show ?case
  proof (cases "continues c l")
    case False
    have "unwrapLoop (pre @ l # rest) c (length pre) =
          unwrapLoop ((pre @ [trimmed l]) @ rest) c (length (pre @ [trimmed l]))"
      by (rule unwrapLoop_plain [OF False])
    also have "\<dots> = (case collapse c rest of Inl e \<Rightarrow> Inl e
                        | Inr r \<Rightarrow> Inr ((pre @ [trimmed l]) @ r))"
      by (rule "2.IH"(2) [OF False])
    finally show ?thesis using False by (simp split: sum.split)
  next
    case True
    show ?thesis
    proof (cases "rest = []")
      case rn: True
      with True show ?thesis by (simp add: unwrapLoop_final)
    next
      case rn: False
      show ?thesis
      proof (cases "dropWhile (continues c) rest")
        case Nil
        with True rn show ?thesis
          by (simp add: unwrapLoop_dangling del: dropWhile_eq_Nil_conv)
      next
        case (Cons t rem)
        let ?k = "Suc (length (takeWhile (continues c) rest))"
        let ?j = "TrimSuffix (trimmed l) c
                    @ concat (map (piece c) (takeWhile (continues c) rest @ [t]))"
        have "\<not> continues c t"
          using Cons by (metis hd_dropWhile list.sel(1) list.distinct(1))
        then have cne: "c \<noteq> []"
          by (auto simp: continues_def HasSuffix_Nil_right)
        have "unwrapLoop (pre @ l # rest) c (length pre) =
              unwrapLoop ((pre @ [?j]) @ replicate ?k [] @ rem) c (length (pre @ [?j]))"
          using unwrapLoop_run [OF True Cons, of pre] by simp
        also have "\<dots> = unwrapLoop ((pre @ [?j]) @ replicate ?k [] @ rem) c
                            (length (pre @ [?j]) + ?k)"
          by (rule unwrapLoop_skip [OF cne])
        also have "\<dots> = unwrapLoop ((pre @ ?j # replicate ?k []) @ rem) c
                            (length (pre @ ?j # replicate ?k []))"
          by simp
        also have "\<dots> = (case collapse c rem of Inl e \<Rightarrow> Inl e
                        | Inr r \<Rightarrow> Inr ((pre @ ?j # replicate ?k []) @ r))"
          by (rule "2.IH"(1) [OF True rn Cons])
        finally show ?thesis using True rn Cons
          by (simp split: sum.split del: dropWhile_eq_Nil_conv)
      qed
    qed
  qed
qed

lemma unwrap_collapse:
  "unwrapLinesInString text c =
     (case collapse c (Split text newline) of
        Inl e \<Rightarrow> Inl e
      | Inr r \<Rightarrow> Inr (Join r newline))"
  using unwrapLoop_collapse [of "[]" "Split text newline" c]
  by (simp add: unwrapLinesInString_def split: sum.split)

section \<open>Properties of the collapsed document\<close>

text \<open>
  The equations of \<open>collapse\<close> by the shape of the document, and the induction rule that
  goes with them: a plain first line, a continuing only line, a run without terminator, a
  run with its terminator.
\<close>

lemma collapse_plain_eq:
  "\<not> continues c l \<Longrightarrow>
   collapse c (l # rest) =
     (case collapse c rest of Inl e \<Rightarrow> Inl e | Inr r \<Rightarrow> Inr (trimmed l # r))"
  by simp

lemma collapse_final_eq:
  "continues c l \<Longrightarrow> collapse c [l] = Inr [TrimSuffix (trimmed l) c]"
  by simp

lemma collapse_dangling_eq:
  "continues c l \<Longrightarrow> rest \<noteq> [] \<Longrightarrow> \<forall>x \<in> set rest. continues c x \<Longrightarrow>
   collapse c (l # rest) = Inl IndexOutOfRange"
proof -
  assume a: "continues c l" "rest \<noteq> []" "\<forall>x \<in> set rest. continues c x"
  then have "dropWhile (continues c) rest = []" by simp
  with a(1,2) show ?thesis by (simp only: collapse.simps) simp
qed

lemma collapse_run_eq:
  assumes "continues c l" "\<forall>x \<in> set run. continues c x" "\<not> continues c t"
  shows "collapse c (l # run @ t # rem) =
     (case collapse c rem of
        Inl e \<Rightarrow> Inl e
      | Inr r \<Rightarrow>
          Inr ((TrimSuffix (trimmed l) c @ concat (map (piece c) (run @ [t])))
               # replicate (Suc (length run)) [] @ r))"
proof -
  have d: "dropWhile (continues c) (run @ t # rem) = t # rem"
    using assms(2,3) by simp
  have t: "takeWhile (continues c) (run @ t # rem) = run"
    using assms(2,3) by simp
  show ?thesis
    using assms(1) by (simp only: collapse.simps d t) (simp split: sum.split)
qed

lemma collapse_induct [case_names Nil plain final dangling run]:
  assumes "\<And>c. P c []"
    and "\<And>c l rest. \<not> continues c l \<Longrightarrow> P c rest \<Longrightarrow> P c (l # rest)"
    and "\<And>c l. continues c l \<Longrightarrow> P c [l]"
    and "\<And>c l rest. continues c l \<Longrightarrow> rest \<noteq> [] \<Longrightarrow>
           \<forall>x \<in> set rest. continues c x \<Longrightarrow> P c (l # rest)"
    and "\<And>c l run t rem. continues c l \<Longrightarrow> \<forall>x \<in> set run. continues c x \<Longrightarrow>
           \<not> continues c t \<Longrightarrow> P c rem \<Longrightarrow> P c (l # run @ t # rem)"
  shows "P c ls"
proof (induction c ls rule: collapse.induct)
  case (1 c)
  show ?case by (rule assms(1))
next
  case (2 c l rest)
  show ?case
  proof (cases "continues c l")
    case False
    then show ?thesis using "2.IH"(2) assms(2) by blast
  next
    case True
    show ?thesis
    proof (cases "rest = []")
      case rn: True
      with True show ?thesis using assms(3) by simp
    next
      case rn: False
      show ?thesis
      proof (cases "dropWhile (continues c) rest")
        case Nil
        then have "\<forall>x \<in> set rest. continues c x" by simp
        with True rn show ?thesis using assms(4) by blast
      next
        case (Cons t rem)
        let ?run = "takeWhile (continues c) rest"
        have split: "rest = ?run @ t # rem"
          using Cons takeWhile_dropWhile_id [of "continues c" rest] by simp
        have nt: "\<not> continues c t"
          using Cons by (metis hd_dropWhile list.sel(1) list.distinct(1))
        have all: "\<forall>x \<in> set ?run. continues c x"
          by (auto dest: set_takeWhileD)
        have "P c (l # ?run @ t # rem)"
          using True all nt "2.IH"(1) [OF True rn Cons] by (rule assms(5))
        with split show ?thesis by simp
      qed
    qed
  qed
qed

declare collapse.simps(2) [simp del]

lemma collapse_plain:
  "\<forall>l \<in> set ls. \<not> continues c l \<Longrightarrow> collapse c ls = Inr (map trimmed ls)"
  by (induction ls) (auto simp: collapse_plain_eq)

lemma collapse_length: "collapse c ls = Inr r \<Longrightarrow> length r = length ls"
proof (induction c ls arbitrary: r rule: collapse_induct)
  case (Nil c)
  then show ?case by simp
next
  case (plain c l rest)
  then show ?case by (auto simp: collapse_plain_eq split: sum.splits)
next
  case (final c l)
  then show ?case by (auto simp: collapse_final_eq)
next
  case (dangling c l rest)
  then show ?case by (simp add: collapse_dangling_eq)
next
  case (run c l run t rem)
  then show ?case by (auto simp: collapse_run_eq split: sum.splits)
qed

lemma collapse_no_byte:
  "collapse c ls = Inr r \<Longrightarrow> \<forall>l \<in> set ls. b \<notin> set l \<Longrightarrow> \<forall>l \<in> set r. b \<notin> set l"
proof (induction c ls arbitrary: r rule: collapse_induct)
  case (Nil c)
  then show ?case by simp
next
  case (plain c l rest)
  then show ?case
    using set_TrimRight [of l whitespace]
    by (auto simp: collapse_plain_eq trimmed_def split: sum.splits)
next
  case (final c l)
  then show ?case
    using set_TrimRight [of l whitespace] set_TrimSuffix [of "trimmed l" c]
    by (auto simp: collapse_final_eq trimmed_def)
next
  case (dangling c l rest)
  then show ?case by (simp add: collapse_dangling_eq)
next
  case (run c l run t rem)
  have pc: "b \<notin> set (piece c x)" if "b \<notin> set x" for x
    using that set_TrimRight [of x whitespace]
      set_TrimSuffix [of "TrimRight x whitespace" c]
      set_TrimLeft [of "TrimSuffix (TrimRight x whitespace) c" blanks]
    by (auto simp: piece_def)
  have hd: "b \<notin> set (TrimSuffix (trimmed l) c)"
    using run.prems(2) set_TrimRight [of l whitespace] set_TrimSuffix [of "trimmed l" c]
    by (auto simp: trimmed_def)
  from run.prems(1) obtain r' where r': "collapse c rem = Inr r'"
    "r = (TrimSuffix (trimmed l) c @ concat (map (piece c) (run @ [t])))
          # replicate (Suc (length run)) [] @ r'"
    using run.hyps by (auto simp: collapse_run_eq split: sum.splits)
  have "\<forall>l \<in> set r'. b \<notin> set l"
    using run.IH [OF r'(1)] run.prems(2) by simp
  with r'(2) hd pc run.prems(2) show ?case by auto
qed

lemma collapse_fixpoint:
  "collapse c ls = Inr ls \<Longrightarrow> c \<noteq> [] \<Longrightarrow>
   \<forall>l \<in> set ls. \<not> continues c l \<and> trimmed l = l"
proof (induction c ls rule: collapse_induct)
  case (Nil c)
  then show ?case by simp
next
  case (plain c l rest)
  then show ?case by (auto simp: collapse_plain_eq split: sum.splits)
next
  case (final c l)
  from final.prems(1) final.hyps have "TrimSuffix (trimmed l) c = l"
    by (simp add: collapse_final_eq)
  with strip_shorter [OF final.hyps final.prems(2)] show ?case by simp
next
  case (dangling c l rest)
  then show ?case by (simp add: collapse_dangling_eq)
next
  case (run c l run t rem)
  from run.prems(1) run.hyps obtain r where r: "collapse c rem = Inr r"
    and j: "TrimSuffix (trimmed l) c @ concat (map (piece c) (run @ [t])) = l"
    and e: "replicate (Suc (length run)) [] @ r = run @ t # rem"
    by (auto simp: collapse_run_eq split: sum.splits)
  have rn: "run = []"
  proof (rule ccontr)
    assume "run \<noteq> []"
    then obtain x xs where x: "run = x # xs" by (cases run) auto
    with e have "x = []" by simp
    with x run.hyps(2) run.prems(2) show False by (simp add: continues_Nil)
  qed
  with e have "t = []" by simp
  with rn j have "TrimSuffix (trimmed l) c = l" by (simp add: piece_Nil)
  with strip_shorter [OF run.hyps(1) run.prems(2)] show ?case by simp
qed

lemma dangling_after_plain:
  "\<not> continues c t \<Longrightarrow> dangling c (xs @ t # rem) = dangling c rem"
proof (cases rem)
  case Nil
  assume "\<not> continues c t"
  with Nil show ?thesis by (simp add: dangling_def)
next
  case (Cons r rs)
  assume nt: "\<not> continues c t"
  show ?thesis
  proof (cases rs)
    case Nil
    with Cons nt show ?thesis by (simp add: dangling_def butlast_append)
  next
    case (Cons r2 rs2)
    with \<open>rem = r # rs\<close> show ?thesis
      by (simp add: dangling_def butlast_append)
  qed
qed

lemma dangling_all:
  assumes "continues c l" "rest \<noteq> []" "\<forall>x \<in> set rest. continues c x"
  shows "dangling c (l # rest)"
proof -
  have "last rest \<in> set rest" using assms(2) by simp
  moreover have "last (l # butlast rest) \<in> set (l # butlast rest)" by (rule last_in_set) simp
  then have "last (l # butlast rest) \<in> insert l (set rest)"
    by (auto dest: in_set_butlastD)
  ultimately show ?thesis using assms by (auto simp: dangling_def)
qed

lemma isl_case_Inr:
  "isl (case x of Inl e \<Rightarrow> Inl e | Inr r \<Rightarrow> Inr (f r)) = isl x"
  by (cases x) auto

lemma collapse_isl_iff: "isl (collapse c ls) \<longleftrightarrow> dangling c ls"
proof (induction c ls rule: collapse_induct)
  case (Nil c)
  show ?case by (simp add: dangling_def)
next
  case (plain c l rest)
  have "dangling c ([] @ l # rest) = dangling c rest"
    by (rule dangling_after_plain [OF plain.hyps])
  with plain show ?case by (simp add: collapse_plain_eq isl_case_Inr)
next
  case (final c l)
  then show ?case by (simp add: collapse_final_eq dangling_def)
next
  case (dangling c l rest)
  then show ?case by (simp add: collapse_dangling_eq dangling_all)
next
  case (run c l run t rem)
  have "dangling c ((l # run) @ t # rem) = dangling c rem"
    by (rule dangling_after_plain [OF run.hyps(3)])
  with run show ?case by (simp add: collapse_run_eq isl_case_Inr)
qed

lemma collapse_last:
  "collapse c ls = Inr r \<Longrightarrow> ls \<noteq> [] \<Longrightarrow> continues c (last ls) \<Longrightarrow>
   last r = TrimSuffix (trimmed (last ls)) c"
proof (induction c ls arbitrary: r rule: collapse_induct)
  case (Nil c)
  then show ?case by simp
next
  case (plain c l rest)
  from plain.prems(3) plain.hyps have ne: "rest \<noteq> []" by auto
  from plain.prems(1) plain.hyps obtain r' where r': "collapse c rest = Inr r'" "r = trimmed l # r'"
    by (auto simp: collapse_plain_eq split: sum.splits)
  have "r' \<noteq> []" using collapse_length [OF r'(1)] ne by auto
  with plain.IH [OF r'(1) ne] plain.prems(3) ne r'(2) show ?case by simp
next
  case (final c l)
  then show ?case by (auto simp: collapse_final_eq)
next
  case (dangling c l rest)
  then show ?case by (simp add: collapse_dangling_eq)
next
  case (run c l run t rem)
  from run.prems(3) run.hyps(3) have ne: "rem \<noteq> []" by auto
  from run.prems(1) run.hyps obtain r' where r': "collapse c rem = Inr r'"
    "r = (TrimSuffix (trimmed l) c @ concat (map (piece c) (run @ [t])))
          # replicate (Suc (length run)) [] @ r'"
    by (auto simp: collapse_run_eq split: sum.splits)
  have "r' \<noteq> []" using collapse_length [OF r'(1)] ne by auto
  with run.IH [OF r'(1) ne] run.prems(3) ne r'(2) show ?case by simp
qed

lemma collapse_append:
  "pre = [] \<or> \<not> continues c (last pre) \<Longrightarrow>
   collapse c (pre @ suf) =
     (case collapse c pre of
        Inl e \<Rightarrow> Inl e
      | Inr a \<Rightarrow> (case collapse c suf of Inl e \<Rightarrow> Inl e | Inr b \<Rightarrow> Inr (a @ b)))"
proof (induction c pre rule: collapse_induct)
  case (Nil c)
  show ?case by (simp split: sum.split)
next
  case (plain c l rest)
  from plain.prems have "rest = [] \<or> \<not> continues c (last rest)" by (auto split: if_splits)
  from plain.IH [OF this] plain.hyps show ?case
    by (simp add: collapse_plain_eq split: sum.split)
next
  case (final c l)
  then show ?case by simp
next
  case (dangling c l rest)
  then show ?case by (auto split: if_splits)
next
  case (run c l run t rem)
  from run.prems run.hyps(3) have "rem = [] \<or> \<not> continues c (last rem)"
    by (auto split: if_splits)
  from run.IH [OF this] have ih: "collapse c (rem @ suf) =
     (case collapse c rem of
        Inl e \<Rightarrow> Inl e
      | Inr a \<Rightarrow> (case collapse c suf of Inl e \<Rightarrow> Inl e | Inr b \<Rightarrow> Inr (a @ b)))" .
  have "collapse c ((l # run @ t # rem) @ suf) = collapse c (l # run @ t # (rem @ suf))"
    by simp
  also have "\<dots> = (case collapse c (rem @ suf) of
        Inl e \<Rightarrow> Inl e
      | Inr r \<Rightarrow>
          Inr ((TrimSuffix (trimmed l) c @ concat (map (piece c) (run @ [t])))
               # replicate (Suc (length run)) [] @ r))"
    by (rule collapse_run_eq [OF run.hyps(1,2,3)])
  finally show ?case
    using run.hyps by (simp add: ih collapse_run_eq split: sum.split)
qed

lemma take_drop_nths:
  "m + n \<le> length xs \<Longrightarrow> take n (drop m xs) = map ((!) xs) [m..<m + n]"
  by (rule nth_equalityI) auto

lemma collapse_run_at:
  assumes r: "collapse c ls = Inr r"
    and se: "s \<le> e" and e: "Suc e < length ls"
    and run: "\<forall>i. s \<le> i \<and> i \<le> e \<longrightarrow> continues c (ls ! i)"
    and stop: "\<not> continues c (ls ! Suc e)"
    and left: "s = 0 \<or> \<not> continues c (ls ! (s - 1))"
  shows "r ! s = TrimSuffix (trimmed (ls ! s)) c
                   @ concat (map (\<lambda>i. piece c (ls ! i)) [Suc s..<Suc (Suc e)])
         \<and> (\<forall>i. s < i \<and> i \<le> Suc e \<longrightarrow> r ! i = [])"
proof -
  let ?pre = "take s ls"
  let ?run = "take (e - s) (drop (Suc s) ls)"
  let ?rem = "drop (Suc (Suc e)) ls"
  let ?joined = "TrimSuffix (trimmed (ls ! s)) c @ concat (map (piece c) (?run @ [ls ! Suc e]))"
  have pre: "?pre = [] \<or> \<not> continues c (last ?pre)"
  proof (cases "s = 0")
    case True
    then show ?thesis by simp
  next
    case False
    with se e have ne: "?pre \<noteq> []" by auto
    have "last ?pre = ?pre ! (length ?pre - 1)" by (rule last_conv_nth [OF ne])
    also have "\<dots> = ls ! (s - 1)" using False se e by simp
    finally show ?thesis using left False by simp
  qed
  have d1: "drop s ls = ls ! s # drop (Suc s) ls"
    using se e by (simp add: Cons_nth_drop_Suc)
  have "drop (e - s) (drop (Suc s) ls) = drop (Suc e) ls"
    using se by simp
  then have d2: "drop (Suc s) ls = ?run @ drop (Suc e) ls"
    using append_take_drop_id [of "e - s" "drop (Suc s) ls"] by simp
  have d3: "drop (Suc e) ls = ls ! Suc e # ?rem"
    using e by (simp add: Cons_nth_drop_Suc)
  have "ls = ?pre @ drop s ls" by simp
  also have "drop s ls = ls ! s # ?run @ ls ! Suc e # ?rem"
    using d1 d2 d3 by simp
  finally have split: "ls = ?pre @ ls ! s # ?run @ ls ! Suc e # ?rem" .
  have runs: "?run = map ((!) ls) [Suc s..<Suc s + (e - s)]"
    using se e by (intro take_drop_nths) simp
  then have runs': "?run @ [ls ! Suc e] = map ((!) ls) [Suc s..<Suc (Suc e)]"
    using se by simp
  have allrun: "\<forall>x \<in> set ?run. continues c x"
    using run se by (auto simp: runs)
  have first: "continues c (ls ! s)" using run se by simp
  have tail: "collapse c (ls ! s # ?run @ ls ! Suc e # ?rem) =
     (case collapse c ?rem of
        Inl e \<Rightarrow> Inl e
      | Inr r' \<Rightarrow> Inr (?joined # replicate (Suc (length ?run)) [] @ r'))"
    by (rule collapse_run_eq [OF first allrun stop])
  have "collapse c (?pre @ ls ! s # ?run @ ls ! Suc e # ?rem) = Inr r"
    using r split by simp
  then obtain a r' where a: "collapse c ?pre = Inr a"
    and r': "collapse c ?rem = Inr r'"
    and req: "r = a @ ?joined # replicate (Suc (length ?run)) [] @ r'"
    by (auto simp: collapse_append [OF pre] tail split: sum.splits)
  have la: "length a = s"
    using collapse_length [OF a] se e by simp
  have lr: "length ?run = e - s"
    using se e by simp
  have j: "r ! s = ?joined"
    using la by (simp add: req nth_append)
  have z: "r ! i = []" if "s < i" "i \<le> Suc e" for i
  proof -
    define k where "k = i - Suc s"
    from that se have k: "i = s + Suc k" "k < Suc (e - s)"
      by (auto simp: k_def)
    then have "r ! i = (replicate (Suc (e - s)) [] @ r') ! k"
      using la lr by (simp add: req nth_append)
    also have "\<dots> = []"
      using k(2) by (simp add: nth_append del: replicate_Suc)
    finally show ?thesis .
  qed
  have "concat (map (piece c) (?run @ [ls ! Suc e]))
          = concat (map (\<lambda>i. piece c (ls ! i)) [Suc s..<Suc (Suc e)])"
    by (simp only: runs' map_map o_def)
  with j z show ?thesis by simp
qed

section \<open>What the unwrapper returns\<close>

text \<open>
  The lines of the returned text are the collapsed document: no line of it holds a
  newline, so splitting the joined lines gives them back.
\<close>

lemma unwrap_lines:
  assumes "unwrapLinesInString text c = Inr out"
  shows "collapse c (Split text newline) = Inr (Split out newline)"
proof -
  from assms obtain r where r: "collapse c (Split text newline) = Inr r" "Join r newline = out"
    by (auto simp: unwrap_collapse split: sum.splits)
  have "length r = length (Split text newline)" by (rule collapse_length [OF r(1)])
  then have ne: "r \<noteq> []" using Split_not_Nil [of _ newline] by auto
  have "\<forall>l \<in> set r. newline \<notin> set l"
    using collapse_no_byte [OF r(1)] Split_no_sep by blast
  with ne have "Split (Join r newline) newline = r" by (rule Split_Join)
  with r show ?thesis by simp
qed

text \<open>
  The unwrapper panics exactly on the documents whose last two lines both end in the
  connector after trimming, and returns on all others.
\<close>

lemma unwrap_panics_iff:
  "unwrapLinesInString text c = Inl IndexOutOfRange \<longleftrightarrow> dangling c (Split text newline)"
proof -
  have "unwrapLinesInString text c = Inl IndexOutOfRange \<longleftrightarrow>
        isl (collapse c (Split text newline))"
    by (cases "collapse c (Split text newline)")
       (auto simp: unwrap_collapse intro: panic.exhaust)
  then show ?thesis by (simp add: collapse_isl_iff)
qed

lemma unwrap_returns_iff:
  "(\<exists>out. unwrapLinesInString text c = Inr out) \<longleftrightarrow> \<not> dangling c (Split text newline)"
proof -
  have "(\<exists>out. unwrapLinesInString text c = Inr out) \<longleftrightarrow>
        unwrapLinesInString text c \<noteq> Inl IndexOutOfRange"
    by (cases "unwrapLinesInString text c") (auto intro: panic.exhaust)
  then show ?thesis by (simp add: unwrap_panics_iff)
qed

text \<open>Whenever the unwrapper returns, the output has as many lines as the input.\<close>

lemma unwrap_line_count:
  "unwrapLinesInString text c = Inr out \<Longrightarrow>
   length (Split out newline) = length (Split text newline)"
  by (drule unwrap_lines) (rule collapse_length)

text \<open>
  A continuing last line whose predecessor does not continue: the unwrapper returns and
  the last line of the output is that line, trimmed and without its connector.
\<close>

lemma unwrap_final_marker:
  assumes "continues c (last (Split text newline))" "\<not> dangling c (Split text newline)"
  shows "\<exists>out. unwrapLinesInString text c = Inr out
           \<and> last (Split out newline) = TrimSuffix (trimmed (last (Split text newline))) c"
proof -
  from assms(2) obtain out where out: "unwrapLinesInString text c = Inr out"
    using unwrap_returns_iff by blast
  have "last (Split out newline) = TrimSuffix (trimmed (last (Split text newline))) c"
    by (rule collapse_last [OF unwrap_lines [OF out] Split_not_Nil assms(1)])
  with out show ?thesis by blast
qed

text \<open>
  Whenever the unwrapper returns: a maximal run of continuing lines \<open>s, \<dots>, e\<close> with its
  terminator at \<open>e + 1\<close> is replaced by the joined line at \<open>s\<close>, made of the first line
  without its connector and of the later lines through the terminator without connector
  and leading blanks (every line taken after the trim of trailing whitespace), and by the
  empty line at the indices \<open>s + 1, \<dots>, e + 1\<close>.
\<close>

lemma unwrap_run_joined:
  assumes "unwrapLinesInString text c = Inr out"
    and "s \<le> e" and "Suc e < length (Split text newline)"
    and "\<forall>i. s \<le> i \<and> i \<le> e \<longrightarrow> continues c (Split text newline ! i)"
    and "\<not> continues c (Split text newline ! Suc e)"
    and "s = 0 \<or> \<not> continues c (Split text newline ! (s - 1))"
  shows "Split out newline ! s =
           TrimSuffix (trimmed (Split text newline ! s)) c
             @ concat (map (\<lambda>i. piece c (Split text newline ! i)) [Suc s..<Suc (Suc e)])
         \<and> (\<forall>i. s < i \<and> i \<le> Suc e \<longrightarrow> Split out newline ! i = [])"
  by (rule collapse_run_at [OF unwrap_lines [OF assms(1)] assms(2-6)])

text \<open>Without a continuing line every line is trimmed and nothing else changes.\<close>

lemma unwrap_plain:
  assumes "\<forall>l \<in> set (Split text newline). \<not> continues c l"
  shows "unwrapLinesInString text c = Inr (Join (map trimmed (Split text newline)) newline)"
  using assms by (simp add: unwrap_collapse collapse_plain)

section \<open>The empty document and the worked example\<close>

text \<open>
  C9: on the empty text the unwrapper returns the empty text, whatever the connector:
  the split gives one empty line, which is the last line, and the join of one empty line
  is empty. The output is a single empty line.
\<close>

theorem unwrap_empty_text:
  "unwrapLinesInString [] connector = Inr [] \<and> Split [] newline = [[]]"
proof (cases "connector = []")
  case True
  then have "continues connector []"
    by (simp add: continues_def TrimRight_Nil HasSuffix_Nil_right)
  then show ?thesis
    by (simp add: unwrap_collapse collapse_final_eq trimmed_def TrimRight_Nil
        TrimSuffix_def HasSuffix_def)
next
  case False
  then have "\<not> continues connector []"
    by (simp add: continues_def TrimRight_Nil HasSuffix_Nil_left)
  then show ?thesis
    by (simp add: unwrap_collapse collapse_plain_eq trimmed_def TrimRight_Nil)
qed

text \<open>
  C5, as the specification states it: the text of three lines, the first being the letter
  \<^verbatim>\<open>a\<close>, a space and the backslash, the others \<^verbatim>\<open>b\<close> and \<^verbatim>\<open>c\<close>, would unwrap to \<^verbatim>\<open>ab\<close>, an empty
  line and \<^verbatim>\<open>c\<close>. The unwrapper does not return that text.
\<close>

theorem unwrap_example_not_ab:
  "unwrapLinesInString (''a '' @ wrap @ [newline] @ ''b'' @ [newline] @ ''c'') wrap
     \<noteq> Inr (''ab'' @ [newline, newline] @ ''c'')"
  by code_simp

text \<open>
  C5, amended: the space before the backslash is not trailing when the line is trimmed
  and is not part of the connector, so it stays; the result is \<^verbatim>\<open>a b\<close>, an empty line
  and \<^verbatim>\<open>c\<close>.
\<close>

theorem unwrap_example_keeps_space:
  "unwrapLinesInString (''a '' @ wrap @ [newline] @ ''b'' @ [newline] @ ''c'') wrap
     = Inr (''a b'' @ [newline, newline] @ ''c'')"
  by code_simp

section \<open>Documents without a continuation\<close>

text \<open>
  C4, as the specification states it: a text none of whose lines ends in the backslash
  after trimming would come back unchanged. It does not: a line with trailing whitespace
  loses it.
\<close>

theorem unwrap_without_marker_not_identity:
  "\<not> (\<forall>text. (\<forall>l \<in> set (Split text newline). \<not> HasSuffix (TrimRight l whitespace) wrap)
        \<longrightarrow> unwrapLinesInString text wrap = Inr text)"
proof
  assume a: "\<forall>text. (\<forall>l \<in> set (Split text newline). \<not> HasSuffix (TrimRight l whitespace) wrap)
        \<longrightarrow> unwrapLinesInString text wrap = Inr text"
  have "\<forall>l \<in> set (Split ''a '' newline). \<not> HasSuffix (TrimRight l whitespace) wrap"
    by (simp add: newline_def TrimRight_def whitespace_def HasSuffix_def wrap_def)
  with a have "unwrapLinesInString ''a '' wrap = Inr ''a ''" by blast
  moreover have "unwrapLinesInString ''a '' wrap = Inr ''a''" by code_simp
  ultimately show False by simp
qed

text \<open>
  C4, amended: when no line of the text ends in the connector after trimming, the
  unwrapper returns the text with the trailing whitespace of every line removed; the
  result is the text itself when no line carries trailing whitespace.
\<close>

theorem unwrap_without_marker:
  assumes "\<forall>l \<in> set (Split text newline). \<not> HasSuffix (TrimRight l whitespace) connector"
  shows "unwrapLinesInString text connector =
           Inr (Join (map (\<lambda>l. TrimRight l whitespace) (Split text newline)) newline)
         \<and> ((\<forall>l \<in> set (Split text newline). TrimRight l whitespace = l) \<longrightarrow>
              unwrapLinesInString text connector = Inr text)"
proof -
  have nc: "\<forall>l \<in> set (Split text newline). \<not> continues connector l"
    using assms by (simp add: continues_def)
  have tr: "map trimmed ls = map (\<lambda>l. TrimRight l whitespace) ls" for ls
    by (simp add: trimmed_def)
  have eq: "unwrapLinesInString text connector =
           Inr (Join (map (\<lambda>l. TrimRight l whitespace) (Split text newline)) newline)"
    using unwrap_plain [OF nc] by (simp add: tr)
  have "unwrapLinesInString text connector = Inr text"
    if "\<forall>l \<in> set (Split text newline). TrimRight l whitespace = l"
  proof -
    from that have "map (\<lambda>l. TrimRight l whitespace) (Split text newline) = Split text newline"
      by (simp add: map_idI)
    with eq show ?thesis by (simp add: Join_Split)
  qed
  with eq show ?thesis by blast
qed

theorem unwrap_without_marker_witness:
  "unwrapLinesInString (''a  '' @ [newline] @ ''b'') wrap = Inr (''a'' @ [newline] @ ''b'')
   \<and> unwrapLinesInString (''a'' @ [newline] @ ''b'') wrap = Inr (''a'' @ [newline] @ ''b'')"
proof -
  have h1: "\<forall>l \<in> set (Split (''a  '' @ [newline] @ ''b'') newline).
              \<not> HasSuffix (TrimRight l whitespace) wrap"
    by (simp add: newline_def TrimRight_def whitespace_def HasSuffix_def wrap_def)
  have h2: "\<forall>l \<in> set (Split (''a'' @ [newline] @ ''b'') newline).
              \<not> HasSuffix (TrimRight l whitespace) wrap"
    by (simp add: newline_def TrimRight_def whitespace_def HasSuffix_def wrap_def)
  have t2: "\<forall>l \<in> set (Split (''a'' @ [newline] @ ''b'') newline). TrimRight l whitespace = l"
    by (simp add: newline_def TrimRight_def whitespace_def)
  have "unwrapLinesInString (''a  '' @ [newline] @ ''b'') wrap = Inr (''a'' @ [newline] @ ''b'')"
    using unwrap_without_marker [OF h1]
    by (simp add: newline_def TrimRight_def whitespace_def)
  moreover have "unwrapLinesInString (''a'' @ [newline] @ ''b'') wrap = Inr (''a'' @ [newline] @ ''b'')"
    using unwrap_without_marker [OF h2] t2 by blast
  ultimately show ?thesis by simp
qed

section \<open>Unwrapping twice\<close>

text \<open>
  C6, as the specification states it: unwrapping the output of the unwrapper would give
  that output again. It does not: of two backslashes at the end of the last line one is
  stripped by each pass.
\<close>

theorem unwrap_not_idempotent:
  "\<not> (\<forall>text out. unwrapLinesInString text wrap = Inr out \<longrightarrow>
         unwrapLinesInString out wrap = Inr out)"
proof
  assume a: "\<forall>text out. unwrapLinesInString text wrap = Inr out \<longrightarrow>
         unwrapLinesInString out wrap = Inr out"
  have "unwrapLinesInString (''a'' @ wrap @ wrap) wrap = Inr (''a'' @ wrap)" by code_simp
  with a have "unwrapLinesInString (''a'' @ wrap) wrap = Inr (''a'' @ wrap)" by blast
  moreover have "unwrapLinesInString (''a'' @ wrap) wrap = Inr ''a''" by code_simp
  ultimately show False by (simp add: wrap_def)
qed

text \<open>
  C6, amended: for a connector that is not empty, unwrapping an output of the unwrapper
  gives that output again exactly when no line of the output ends in the connector or in
  whitespace. (An output can have such lines.)
\<close>

theorem unwrap_twice:
  assumes "unwrapLinesInString text connector = Inr out" and "connector \<noteq> []"
  shows "unwrapLinesInString out connector = Inr out \<longleftrightarrow>
         (\<forall>l \<in> set (Split out newline).
            \<not> HasSuffix l connector \<and> TrimRight l whitespace = l)"
proof
  assume "unwrapLinesInString out connector = Inr out"
  then have "collapse connector (Split out newline) = Inr (Split out newline)"
    by (rule unwrap_lines)
  from collapse_fixpoint [OF this assms(2)]
  show "\<forall>l \<in> set (Split out newline). \<not> HasSuffix l connector \<and> TrimRight l whitespace = l"
    by (auto simp: continues_def trimmed_def)
next
  assume c: "\<forall>l \<in> set (Split out newline). \<not> HasSuffix l connector \<and> TrimRight l whitespace = l"
  then have "\<forall>l \<in> set (Split out newline). \<not> continues connector l"
    by (simp add: continues_def)
  then have "unwrapLinesInString out connector = Inr (Join (map trimmed (Split out newline)) newline)"
    by (rule unwrap_plain)
  moreover have "map trimmed (Split out newline) = Split out newline"
    using c by (simp add: map_idI trimmed_def)
  ultimately show "unwrapLinesInString out connector = Inr out"
    by (simp add: Join_Split)
qed

theorem unwrap_twice_witness:
  "unwrapLinesInString (''a '' @ wrap @ [newline] @ ''  b  '') wrap = Inr (''a b'' @ [newline])
   \<and> unwrapLinesInString (''a b'' @ [newline]) wrap = Inr (''a b'' @ [newline])
   \<and> unwrapLinesInString (''a'' @ wrap @ wrap) wrap = Inr (''a'' @ wrap)
   \<and> unwrapLinesInString (''a'' @ wrap) wrap \<noteq> Inr (''a'' @ wrap)"
proof -
  have ne: "wrap \<noteq> []" by (simp add: wrap_def)
  have r1: "unwrapLinesInString (''a '' @ wrap @ [newline] @ ''  b  '') wrap
              = Inr (''a b'' @ [newline])"
    by code_simp
  have c1: "\<forall>l \<in> set (Split (''a b'' @ [newline]) newline).
              \<not> HasSuffix l wrap \<and> TrimRight l whitespace = l"
    by (simp add: newline_def TrimRight_def whitespace_def HasSuffix_def wrap_def)
  have i1: "unwrapLinesInString (''a b'' @ [newline]) wrap = Inr (''a b'' @ [newline])"
    using unwrap_twice [OF r1 ne] c1 by blast
  have r2: "unwrapLinesInString (''a'' @ wrap @ wrap) wrap = Inr (''a'' @ wrap)"
    by code_simp
  have c2: "\<not> (\<forall>l \<in> set (Split (''a'' @ wrap) newline).
              \<not> HasSuffix l wrap \<and> TrimRight l whitespace = l)"
    by (simp add: newline_def HasSuffix_def wrap_def)
  have i2: "unwrapLinesInString (''a'' @ wrap) wrap \<noteq> Inr (''a'' @ wrap)"
    using unwrap_twice [OF r2 ne] c2 by blast
  from r1 i1 r2 i2 show ?thesis by simp
qed

section \<open>A run that reaches the end of the document\<close>

text \<open>
  The guard \<^verbatim>\<open>n >= len(lines)-1\<close> covers a continuing last line only when the outer
  loop reaches it. When the line before it continues too, the scan started there reads
  \<^verbatim>\<open>lines[next]\<close> one past the last index. The four texts below end in such a run.
\<close>

text \<open>
  C10: two lines that both end in the backslash. The scan started at the first line
  reads the index 2 of a slice of length 2, and the unwrapper panics.
\<close>

theorem unwrap_scan_out_of_range:
  "unwrapLinesInString (''one '' @ wrap @ [newline] @ ''two '' @ wrap) wrap
     = Inl IndexOutOfRange"
  by code_simp

text \<open>
  C3: the final line ends in the backslash and so does the line before it. The unwrapper
  does not strip the connector of the final line and return; it panics.
\<close>

theorem unwrap_final_marker_after_marker_panics:
  "HasSuffix (TrimRight (last (Split (''a'' @ wrap @ [newline] @ ''b'' @ wrap) newline)) whitespace) wrap
   \<and> unwrapLinesInString (''a'' @ wrap @ [newline] @ ''b'' @ wrap) wrap = Inl IndexOutOfRange"
  by code_simp

text \<open>
  C2: a text of three lines of which the last two end in the backslash. No output of
  three lines is returned: the unwrapper panics.
\<close>

theorem unwrap_three_lines_no_output:
  "length (Split (''p'' @ [newline] @ ''q'' @ wrap @ [newline] @ ''r'' @ wrap) newline) = 3
   \<and> unwrapLinesInString (''p'' @ [newline] @ ''q'' @ wrap @ [newline] @ ''r'' @ wrap) wrap
       = Inl IndexOutOfRange"
  by code_simp

text \<open>
  C1: the first line ends in the backslash and the second line terminates its run, so
  the run would be replaced by the joined line \<^verbatim>\<open>ab\<close> and an empty line. The last two
  lines both end in the backslash, and the unwrapper panics before it returns any line.
\<close>

theorem unwrap_run_then_dangling_run_panics:
  "Split (''a'' @ wrap @ [newline] @ ''b'' @ [newline] @ ''c'' @ wrap @ [newline] @ ''d'' @ wrap) newline
     = [''a'' @ wrap, ''b'', ''c'' @ wrap, ''d'' @ wrap]
   \<and> unwrapLinesInString
        (''a'' @ wrap @ [newline] @ ''b'' @ [newline] @ ''c'' @ wrap @ [newline] @ ''d'' @ wrap) wrap
       = Inl IndexOutOfRange"
  by code_simp

section \<open>Errors and the cleanup of \<^verbatim>\<open>Unwrap\<close>\<close>

text \<open>
  \<^verbatim>\<open>Unwrap\<close> returns unless the unwrapper panics, which takes a source that was read,
  a temporary file that was created, and a text whose last two lines end in the backslash.
\<close>

lemma Unwrap_panics_iff:
  "Unwrap w filePath = Inl IndexOutOfRange \<longleftrightarrow>
     (\<exists>text tmpFile. readFile w filePath = Inr text \<and> tempFile w filePath = Inr tmpFile
        \<and> dangling wrap (Split text newline))"
proof -
  have "unwrapLinesInString s wrap = Inl IndexOutOfRange \<longleftrightarrow> isl (unwrapLinesInString s wrap)"
    for s
    by (cases "unwrapLinesInString s wrap") (auto intro: panic.exhaust)
  then have p: "isl (unwrapLinesInString s wrap) \<longleftrightarrow> dangling wrap (Split s newline)"
    for s
    by (simp add: unwrap_panics_iff)
  show ?thesis
  proof (cases "readFile w filePath")
    case (Inl err)
    then show ?thesis by (simp add: Unwrap_def)
  next
    case (Inr content)
    show ?thesis
    proof (cases "tempFile w filePath")
      case (Inl err)
      with Inr show ?thesis by (simp add: Unwrap_def)
    next
      case tf: (Inr tmpFile)
      show ?thesis
      proof (cases "unwrapLinesInString content wrap")
        case (Inl e)
        then have "isl (unwrapLinesInString content wrap)" by simp
        with p have "dangling wrap (Split content newline)" by simp
        moreover have "e = IndexOutOfRange" by (cases e) simp
        ultimately show ?thesis using Inr tf Inl by (simp add: Unwrap_def Let_def)
      next
        case u: (Inr out)
        then have "\<not> isl (unwrapLinesInString content wrap)" by simp
        with p have "\<not> dangling wrap (Split content newline)" by simp
        with Inr tf u show ?thesis by (simp add: Unwrap_def Let_def)
      qed
    qed
  qed
qed

text \<open>
  C7: when the source cannot be opened or read, or no temporary file can be created,
  \<^verbatim>\<open>Unwrap\<close> returns the empty path, the cleanup that does nothing and an error whose
  message ends in the path of the source or in the pattern of the temporary file. When
  the write fails it returns the path of the temporary file (not empty, as the name of
  the created file is not), the cleanup that removes that file, and an error whose
  message ends in that path.
\<close>

theorem Unwrap_failures:
  "(\<not> os_Open w filePath \<longrightarrow>
      Unwrap w filePath = Inr ([], NoOp, Some (''Failed to open file: '' @ filePath)))
   \<and> (os_Open w filePath \<and> ioutil_ReadAll w filePath = None \<longrightarrow>
      Unwrap w filePath = Inr ([], NoOp, Some (''Failed to read from file: '' @ filePath)))
   \<and> (readFile w filePath = Inr text \<and> ioutil_TempFile w (tmpFilePattern w filePath) = None \<longrightarrow>
      Unwrap w filePath =
        Inr ([], NoOp, Some (''Failed to created a temp file: '' @ tmpFilePattern w filePath)))
   \<and> (readFile w filePath = Inr text \<and> tempFile w filePath = Inr tmpFile \<and> tmpFile \<noteq> []
        \<and> unwrapLinesInString text wrap = Inr unwrapped \<and> \<not> WriteString w tmpFile unwrapped \<longrightarrow>
      (\<exists>newFilePath cleanUp message.
         Unwrap w filePath = Inr (newFilePath, cleanUp, Some message)
         \<and> newFilePath = tmpFile \<and> newFilePath \<noteq> []
         \<and> message = ''Failed to write unwrapped text to: '' @ tmpFile
         \<and> cleanUp = RemoveFile tmpFile
         \<and> invoke cleanUp files = Inr (files - {tmpFile})))"
  by (simp add: Unwrap_def readFile_def tempFile_def)

theorem Unwrap_failures_witness:
  "Unwrap (sample_world False None None False) ''templates/page.tpl''
     = Inr ([], NoOp, Some ''Failed to open file: templates/page.tpl'')
   \<and> Unwrap (sample_world True None None False) ''templates/page.tpl''
     = Inr ([], NoOp, Some ''Failed to read from file: templates/page.tpl'')
   \<and> Unwrap (sample_world True (Some ''x'') None False) ''templates/page.tpl''
     = Inr ([], NoOp, Some ''Failed to created a temp file: page*.tpl'')
   \<and> Unwrap (sample_world True (Some ''x'') (Some ''/tmp/page071.tpl'') False) ''templates/page.tpl''
     = Inr (''/tmp/page071.tpl'', RemoveFile ''/tmp/page071.tpl'',
            Some ''Failed to write unwrapped text to: /tmp/page071.tpl'')"
proof -
  let ?p = "''templates/page.tpl''"
  have pat: "tmpFilePattern (sample_world True (Some ''x'') None False) ?p = ''page*.tpl''"
    by (simp add: tmpFilePattern_def sample_world_def slash_Ext_def slash_Base_def
        TrimSuffix_def HasSuffix_def)
  have a: "Unwrap (sample_world False None None False) ?p
     = Inr ([], NoOp, Some ''Failed to open file: templates/page.tpl'')"
    using Unwrap_failures [of "sample_world False None None False" ?p]
    by (simp add: sample_world_def)
  have b: "Unwrap (sample_world True None None False) ?p
     = Inr ([], NoOp, Some ''Failed to read from file: templates/page.tpl'')"
    using Unwrap_failures [of "sample_world True None None False" ?p]
    by (simp add: sample_world_def)
  have c: "Unwrap (sample_world True (Some ''x'') None False) ?p
     = Inr ([], NoOp, Some ''Failed to created a temp file: page*.tpl'')"
    using Unwrap_failures [of "sample_world True (Some ''x'') None False" ?p "''x''"] pat
    by (simp add: sample_world_def readFile_def)
  have u: "unwrapLinesInString ''x'' wrap = Inr ''x''"
    by code_simp
  have d: "Unwrap (sample_world True (Some ''x'') (Some ''/tmp/page071.tpl'') False) ?p
     = Inr (''/tmp/page071.tpl'', RemoveFile ''/tmp/page071.tpl'',
            Some ''Failed to write unwrapped text to: /tmp/page071.tpl'')"
    using Unwrap_failures [of "sample_world True (Some ''x'') (Some ''/tmp/page071.tpl'') False"
        ?p "''x''" "''/tmp/page071.tpl''" "''x''"] u
    by (simp add: sample_world_def readFile_def tempFile_def)
  from a b c d show ?thesis by simp
qed

text \<open>
  C8: whenever \<^verbatim>\<open>Unwrap\<close> returns, the cleanup it returns is not the nil function
  and calling it does not panic. When the source could not be read or no temporary file
  could be created, it is the cleanup that does nothing and leaves every file in place;
  otherwise the returned path is the temporary file's and the cleanup removes that file.
\<close>

theorem Unwrap_cleanUp:
  assumes "Unwrap w filePath = Inr (newFilePath, cleanUp, err)"
  shows "cleanUp \<noteq> NilFunc
    \<and> (\<exists>files'. invoke cleanUp files = Inr files')
    \<and> (isl (readFile w filePath) \<or> isl (tempFile w filePath) \<longrightarrow>
          cleanUp = NoOp \<and> invoke cleanUp files = Inr files)
    \<and> (\<forall>text tmpFile. readFile w filePath = Inr text \<and> tempFile w filePath = Inr tmpFile \<longrightarrow>
          newFilePath = tmpFile \<and> cleanUp = RemoveFile tmpFile
          \<and> invoke cleanUp files = Inr (files - {newFilePath}))"
  using assms
  by (auto simp: Unwrap_def Let_def split: sum.splits if_splits)

theorem Unwrap_cleanUp_witness:
  "Unwrap (sample_world True (Some ''x'') None True) ''templates/page.tpl''
     = Inr ([], NoOp, Some ''Failed to created a temp file: page*.tpl'')
   \<and> NoOp \<noteq> NilFunc
   \<and> invoke NoOp {''/tmp/other.tpl''} = Inr {''/tmp/other.tpl''}
   \<and> Unwrap (sample_world True (Some ''x'') (Some ''/tmp/page071.tpl'') True) ''templates/page.tpl''
     = Inr (''/tmp/page071.tpl'', RemoveFile ''/tmp/page071.tpl'', None)
   \<and> invoke (RemoveFile ''/tmp/page071.tpl'') {''/tmp/page071.tpl'', ''/tmp/other.tpl''}
     = Inr {''/tmp/other.tpl''}"
proof -
  have r: "Unwrap (sample_world True (Some ''x'') None True) ''templates/page.tpl''
     = Inr ([], NoOp, Some ''Failed to created a temp file: page*.tpl'')"
    by (simp add: Unwrap_def readFile_def tempFile_def tmpFilePattern_def sample_world_def
        slash_Ext_def slash_Base_def TrimSuffix_def HasSuffix_def)
  have u: "unwrapLinesInString ''x'' wrap = Inr ''x''"
    by code_simp
  have s: "Unwrap (sample_world True (Some ''x'') (Some ''/tmp/page071.tpl'') True)
      ''templates/page.tpl''
     = Inr (''/tmp/page071.tpl'', RemoveFile ''/tmp/page071.tpl'', None)"
    by (simp add: Unwrap_def readFile_def tempFile_def sample_world_def u)
  have a: "NoOp \<noteq> NilFunc
     \<and> invoke NoOp {''/tmp/other.tpl''} = Inr {''/tmp/other.tpl''}"
    using Unwrap_cleanUp [OF r, of "{''/tmp/other.tpl''}"]
    by (simp add: tempFile_def sample_world_def)
  have b: "invoke (RemoveFile ''/tmp/page071.tpl'') {''/tmp/page071.tpl'', ''/tmp/other.tpl''}
     = Inr {''/tmp/other.tpl''}"
    using Unwrap_cleanUp [OF s, of "{''/tmp/page071.tpl'', ''/tmp/other.tpl''}"]
    by (simp add: readFile_def tempFile_def sample_world_def)
  from r s a b show ?thesis by simp
qed

end
